theory Spec2Isabelle
  imports Main "HOL-Library.Word" "HOL-Library.Log_Nat"
begin

section \<open>JavaScript numbers\<close>

text \<open>
  A JavaScript number is an IEEE 754 binary64 value; a \<open>Float32Array\<close> element is a
  binary32 value. Both are modelled by their exact rational value, with the two
  infinities and NaN as further constructors, and every operation rounds its exact result
  to nearest, ties to even. The two zeros are not told apart: the decoders below divide
  by the literal 256 only and never inspect a sign, so the sign of a zero cannot be
  observed through them.
\<close>

datatype number = Num rat | PosInf | NegInf | NaN

record format =
  precision :: nat
  emin :: int
  emax :: int

definition binary64 :: format where
  "binary64 = \<lparr>precision = 53, emin = - 1022, emax = 1023\<rparr>"

definition binary32 :: format where
  "binary32 = \<lparr>precision = 24, emin = - 126, emax = 127\<rparr>"

text \<open>\<open>ilog2 x\<close> is the exponent of the binade of a positive \<open>x\<close>: the integer \<open>e\<close>
  with \<open>2^e \<le> x < 2^(e+1)\<close>.\<close>

definition ilog2 :: "rat \<Rightarrow> int" where
  "ilog2 x = (if 1 \<le> x then bitlen \<lfloor>x\<rfloor> - 1 else - bitlen (\<lceil>1 / x\<rceil> - 1))"

definition round_half_even :: "rat \<Rightarrow> int" where
  "round_half_even x =
     (let f = \<lfloor>x\<rfloor>; d = x - of_int f
      in if d < 1 / 2 then f
         else if 1 / 2 < d then f + 1
         else if even f then f else f + 1)"

text \<open>
  Rounding to nearest, ties to even, into a format: the value is scaled by the spacing
  \<open>q\<close> of the format at its binade (the subnormal spacing below \<open>2^emin\<close>), rounded to
  an integer number of spacings, and overflows to an infinity when the rounded magnitude
  reaches \<open>2^(emax+1)\<close>.
\<close>

definition round_float :: "format \<Rightarrow> rat \<Rightarrow> number" where
  "round_float fmt x =
     (if x = 0 then Num 0
      else let e = max (ilog2 \<bar>x\<bar>) (emin fmt);
               q = 2 powi (e - int (precision fmt) + 1);
               y = of_int (round_half_even (\<bar>x\<bar> / q)) * q
           in if 2 powi (emax fmt + 1) \<le> y
              then (if 0 < x then PosInf else NegInf)
              else Num (sgn x * y))"

fun is_neg :: "number \<Rightarrow> bool" where
  "is_neg (Num a) = (a < 0)"
| "is_neg NegInf = True"
| "is_neg _ = False"

definition signed_inf :: "bool \<Rightarrow> number" where
  "signed_inf neg = (if neg then NegInf else PosInf)"


text \<open>The arithmetic operators \<open>+\<close>, \<open>-\<close>, \<open>*\<close> and \<open>/\<close> on numbers.\<close>

fun dadd :: "number \<Rightarrow> number \<Rightarrow> number" where
  "dadd (Num a) (Num b) = round_float binary64 (a + b)"
| "dadd NaN _ = NaN"
| "dadd _ NaN = NaN"
| "dadd PosInf NegInf = NaN"
| "dadd NegInf PosInf = NaN"
| "dadd PosInf _ = PosInf"
| "dadd NegInf _ = NegInf"
| "dadd _ PosInf = PosInf"
| "dadd _ NegInf = NegInf"

fun dneg :: "number \<Rightarrow> number" where
  "dneg (Num a) = Num (- a)"
| "dneg PosInf = NegInf"
| "dneg NegInf = PosInf"
| "dneg NaN = NaN"

definition dsub :: "number \<Rightarrow> number \<Rightarrow> number" where
  "dsub x y = dadd x (dneg y)"

fun dmul :: "number \<Rightarrow> number \<Rightarrow> number" where
  "dmul (Num a) (Num b) = round_float binary64 (a * b)"
| "dmul NaN _ = NaN"
| "dmul _ NaN = NaN"
| "dmul x y = (if x = Num 0 \<or> y = Num 0 then NaN else signed_inf (is_neg x \<noteq> is_neg y))"

fun ddiv :: "number \<Rightarrow> number \<Rightarrow> number" where
  "ddiv (Num a) (Num b) =
     (if b = 0 then (if a = 0 then NaN else signed_inf (a < 0))
      else round_float binary64 (a / b))"
| "ddiv NaN _ = NaN"
| "ddiv _ NaN = NaN"
| "ddiv (Num a) _ = Num 0"
| "ddiv x (Num b) = signed_inf (is_neg x \<noteq> (b < 0))"
| "ddiv _ _ = NaN"

text \<open>The conversion applied when a number is stored into a \<open>Float32Array\<close>.\<close>

fun fround :: "number \<Rightarrow> number" where
  "fround (Num a) = round_float binary32 a"
| "fround x = x"

text \<open>The literal \<open>0.1\<close> denotes the binary64 value nearest to one tenth.\<close>

definition lit_0_1 :: number where
  "lit_0_1 = round_float binary64 (1 / 10)"

section \<open>Typed arrays\<close>

type_synonym uint8 = "8 word"

text \<open>
  Reading \<open>input[i]\<close> from a \<open>Uint8ClampedArray\<close> gives the byte as a number, or
  \<open>undefined\<close> when \<open>i\<close> is not below the length. The decoders use each argument only
  as an operand of \<open>*\<close>, \<open>+\<close> or \<open>/\<close> with a number on the other side, where
  \<open>undefined\<close> converts to NaN; \<open>ToNumber\<close> is that conversion.
\<close>

definition Uint8ClampedArray_get :: "uint8 list \<Rightarrow> nat \<Rightarrow> uint8 option" where
  "Uint8ClampedArray_get a i = (if i < length a then Some (a ! i) else None)"

fun ToNumber :: "uint8 option \<Rightarrow> number" where
  "ToNumber None = NaN"
| "ToNumber (Some b) = Num (of_nat (unat b))"

text \<open>
  \<open>new Float32Array(n)\<close> throws a RangeError when \<open>n\<close> exceeds \<open>2^53 - 1\<close>, the largest
  index of the language, and when the engine cannot create an array of \<open>n\<close> elements;
  otherwise it yields a fresh array of \<open>n\<close> zeros. What the engine can create depends on
  the implementation and on the memory left: \<open>capacity\<close> is the longest \<open>Float32Array\<close>
  that it can create when the call is made.
\<close>

datatype error = RangeError

definition new_Float32Array :: "nat \<Rightarrow> nat \<Rightarrow> error + number list" where
  "new_Float32Array capacity n =
     (if 2 ^ 53 - 1 < n then Inl RangeError
      else if capacity < n then Inl RangeError
      else Inr (replicate n (Num 0)))"

text \<open>
  \<open>data[k] = v\<close> on a \<open>Float32Array\<close>: the value is rounded to binary32 and stored when
  \<open>k\<close> is an integer index below the length; any other key leaves the array as it is
  (a typed array never grows).
\<close>

definition Float32Array_set :: "number list \<Rightarrow> rat \<Rightarrow> number \<Rightarrow> number list" where
  "Float32Array_set a k v =
     (if rat_of_int \<lfloor>k\<rfloor> = k \<and> 0 \<le> k \<and> nat \<lfloor>k\<rfloor> < length a
      then a[nat \<lfloor>k\<rfloor> := fround v] else a)"

section \<open>decodeParsedImage\<close>

record DemTile =
  width :: nat
  height :: nat
  data :: "number list"

text \<open>The two decoder closures of \<open>decodeParsedImage\<close>, operator by operator.\<close>

definition mapbox_decoder :: "number \<Rightarrow> number \<Rightarrow> number \<Rightarrow> number" where
  "mapbox_decoder r g b =
     dadd (Num (- 10000))
       (dmul (dadd (dadd (dmul (dmul r (Num 256)) (Num 256)) (dmul g (Num 256))) b) lit_0_1)"

definition terrarium_decoder :: "number \<Rightarrow> number \<Rightarrow> number \<Rightarrow> number" where
  "terrarium_decoder r g b =
     dsub (dadd (dadd (dmul r (Num 256)) g) (ddiv b (Num 256))) (Num 32768)"

text \<open>
  The encoding reaches the function as a string; the test \<open>encoding === "mapbox"\<close>
  selects the Mapbox closure, and every other string selects the Terrarium one.
\<close>

definition decoder :: "string \<Rightarrow> number \<Rightarrow> number \<Rightarrow> number \<Rightarrow> number" where
  "decoder encoding = (if encoding = ''mapbox'' then mapbox_decoder else terrarium_decoder)"

text \<open>
  The loop works on two distinct typed arrays: the caller's \<open>input\<close> and the
  \<open>data\<close> array that the call has just allocated. Its state is the pair of their
  contents; the loop variable \<open>i\<close> is an argument.
\<close>

record buffers =
  buf_input :: "uint8 list"
  buf_data :: "number list"

text \<open>One execution of the loop body, \<open>data[i / 4] = decoder(input[i], input[i + 1],
  input[i + 2])\<close>, at the value \<open>i\<close> of the loop variable.\<close>

definition loop_body ::
  "(number \<Rightarrow> number \<Rightarrow> number \<Rightarrow> number) \<Rightarrow> nat \<Rightarrow> buffers \<Rightarrow> buffers" where
  "loop_body dec i s =
     s\<lparr>buf_data :=
         Float32Array_set (buf_data s) (of_nat i / 4)
           (dec (ToNumber (Uint8ClampedArray_get (buf_input s) i))
                (ToNumber (Uint8ClampedArray_get (buf_input s) (i + 1)))
                (ToNumber (Uint8ClampedArray_get (buf_input s) (i + 2))))\<rparr>"

text \<open>The loop \<open>for (let i = 0; i < input.length; i += 4)\<close>, entered at \<open>i\<close>.\<close>

function decode_loop ::
  "(number \<Rightarrow> number \<Rightarrow> number \<Rightarrow> number) \<Rightarrow> nat \<Rightarrow> buffers \<Rightarrow> buffers" where
  "decode_loop dec i s =
     (if i < length (buf_input s) then decode_loop dec (i + 4) (loop_body dec i s) else s)"
  by pat_completeness auto
termination
  by (relation "measure (\<lambda>(dec, i, s). length (buf_input s) - i)")
     (auto simp: loop_body_def)

declare decode_loop.simps [simp del]

text \<open>
  The call of \<open>decodeParsedImage\<close> as a whole: the decoder is chosen, the data array is
  allocated, the loop runs, and the tile is returned. The only operation of the body
  that can throw is the allocation; reads and writes of typed arrays out of range do not
  raise. The width and the height are the dimensions of an image, natural numbers; their
  product is exact in binary64 up to \<open>2^53\<close>, and a larger product rounds to at least
  \<open>2^53\<close>, so the test of the allocation on the exact product decides as the engine does.
\<close>

definition decodeParsedImage_completion ::
  "nat \<Rightarrow> nat \<Rightarrow> nat \<Rightarrow> string \<Rightarrow> uint8 list \<Rightarrow> error + DemTile" where
  "decodeParsedImage_completion capacity w h encoding input =
     (case new_Float32Array capacity (w * h) of
        Inl e \<Rightarrow> Inl e
      | Inr d \<Rightarrow>
          Inr \<lparr>width = w, height = h,
               data = buf_data
                 (decode_loop (decoder encoding) 0 \<lparr>buf_input = input, buf_data = d\<rparr>)\<rparr>)"

text \<open>
  The buffers when the loop has finished and the tile that is returned, for a call whose
  allocation has succeeded: the loop starts on the array of \<open>width * height\<close> zeros that
  the allocation has yielded.
\<close>

definition decodeParsedImage_buffers :: "nat \<Rightarrow> nat \<Rightarrow> string \<Rightarrow> uint8 list \<Rightarrow> buffers" where
  "decodeParsedImage_buffers w h encoding input =
     decode_loop (decoder encoding) 0
       \<lparr>buf_input = input, buf_data = replicate (w * h) (Num 0)\<rparr>"

definition decodeParsedImage :: "nat \<Rightarrow> nat \<Rightarrow> string \<Rightarrow> uint8 list \<Rightarrow> DemTile" where
  "decodeParsedImage w h encoding input =
     \<lparr>width = w, height = h,
      data = buf_data (decodeParsedImage_buffers w h encoding input)\<rparr>"

text \<open>
  The module keeps five variables outside its functions: the two canvases, their
  contexts, and the exported array \<open>pngs\<close>. A call of \<open>decodeParsedImage\<close> runs with
  these variables and with the caller's buffer in the store. Its outcome, once the
  allocation has succeeded, is the returned tile together with the contents of the input
  buffer and of the module variables when it returns; the body mentions none of the
  module variables.
\<close>

type_synonym ref = nat

record module_vars =
  offscreenCanvas :: "ref option"
  offscreenContext :: "ref option"
  canvas :: "ref option"
  canvasContext :: "ref option"
  pngs :: "ref list"

record outcome =
  returned :: DemTile
  input_after :: "uint8 list"
  vars_after :: module_vars

definition decodeParsedImage_call ::
  "module_vars \<Rightarrow> nat \<Rightarrow> nat \<Rightarrow> string \<Rightarrow> uint8 list \<Rightarrow> outcome" where
  "decodeParsedImage_call g w h encoding input =
     (let s = decodeParsedImage_buffers w h encoding input
      in \<lparr>returned = \<lparr>width = w, height = h, data = buf_data s\<rparr>,
          input_after = buf_input s, vars_after = g\<rparr>)"

text \<open>The value that the loop stores for pixel \<open>p\<close>: the decoder applied to the three
  reads at \<open>4p\<close>, \<open>4p + 1\<close> and \<open>4p + 2\<close>, rounded to binary32.\<close>

definition pixel_value ::
  "(number \<Rightarrow> number \<Rightarrow> number \<Rightarrow> number) \<Rightarrow> uint8 list \<Rightarrow> nat \<Rightarrow> number" where
  "pixel_value dec input p =
     fround (dec (ToNumber (Uint8ClampedArray_get input (4 * p)))
                 (ToNumber (Uint8ClampedArray_get input (4 * p + 1)))
                 (ToNumber (Uint8ClampedArray_get input (4 * p + 2))))"

section \<open>Rounding\<close>

lemma two_powi_mono: "m \<le> n \<Longrightarrow> (2::rat) powi m \<le> 2 powi n"
  by (rule power_int_increasing) auto

lemma two_powi_less_cancel: "(2::rat) powi m < 2 powi n \<Longrightarrow> m < n"
  using two_powi_mono [of n m] by (cases "m < n") auto

lemma two_powi_le_cancel: "(2::rat) powi m \<le> 2 powi n \<Longrightarrow> m \<le> n"
  using power_int_strict_increasing [of n m "2::rat"] by (cases "m \<le> n") auto

lemma two_powi_nonneg_exp: "0 \<le> k \<Longrightarrow> (2::rat) powi k = of_int (2 ^ nat k)"
  by (simp add: power_int_nonneg_exp)

text \<open>\<open>ilog2\<close> finds the binade.\<close>

lemma ilog2_lower:
  assumes "0 < x"
  shows "2 powi (ilog2 x) \<le> x"
proof (cases "1 \<le> x")
  case True
  then have pos: "0 < \<lfloor>x\<rfloor>" by linarith
  then have b1: "1 \<le> bitlen \<lfloor>x\<rfloor>" by (simp add: bitlen_alt_def)
  have "(2::int) ^ nat (bitlen \<lfloor>x\<rfloor> - 1) \<le> \<lfloor>x\<rfloor>"
    using bitlen_bounds [OF pos] by simp
  then have "rat_of_int (2 ^ nat (bitlen \<lfloor>x\<rfloor> - 1)) \<le> rat_of_int \<lfloor>x\<rfloor>"
    by (simp only: of_int_le_iff)
  also have "\<dots> \<le> x" by simp
  finally show ?thesis
    using True b1 by (simp add: ilog2_def power_int_nonneg_exp)
next
  case False
  let ?m = "\<lceil>1 / x\<rceil>"
  let ?b = "bitlen (?m - 1)"
  from False assms have "1 < 1 / x" by simp
  then have pos: "0 < ?m - 1" by linarith
  have "?m - 1 < 2 ^ nat ?b"
    using bitlen_bounds [OF pos] by simp
  then have "?m \<le> 2 ^ nat ?b" by simp
  then have "rat_of_int ?m \<le> rat_of_int (2 ^ nat ?b)"
    by (simp only: of_int_le_iff)
  moreover have "1 / x \<le> rat_of_int ?m" by (rule le_of_int_ceiling)
  ultimately have "1 / x \<le> rat_of_int (2 ^ nat ?b)" by (rule order_trans [rotated])
  then have "1 / x \<le> 2 ^ nat ?b" by simp
  then have "1 / 2 ^ nat ?b \<le> x"
    using assms by (simp add: field_simps)
  moreover have "(2::rat) powi (- ?b) = 1 / 2 ^ nat ?b"
    using bitlen_nonneg [of "?m - 1"] by (simp add: power_int_minus_divide power_int_nonneg_exp)
  ultimately show ?thesis
    using False by (simp add: ilog2_def)
qed

lemma ilog2_upper:
  assumes "0 < x"
  shows "x < 2 powi (ilog2 x + 1)"
proof (cases "1 \<le> x")
  case True
  then have pos: "0 < \<lfloor>x\<rfloor>" by linarith
  then have b1: "1 \<le> bitlen \<lfloor>x\<rfloor>" by (simp add: bitlen_alt_def)
  have "\<lfloor>x\<rfloor> < 2 ^ nat (bitlen \<lfloor>x\<rfloor>)"
    using bitlen_bounds [OF pos] by simp
  then have "\<lfloor>x\<rfloor> + 1 \<le> 2 ^ nat (bitlen \<lfloor>x\<rfloor>)" by simp
  then have "rat_of_int (\<lfloor>x\<rfloor> + 1) \<le> rat_of_int (2 ^ nat (bitlen \<lfloor>x\<rfloor>))"
    by (simp only: of_int_le_iff)
  moreover have "x < rat_of_int (\<lfloor>x\<rfloor> + 1)" by linarith
  ultimately have "x < 2 ^ nat (bitlen \<lfloor>x\<rfloor>)" by simp
  then show ?thesis
    using True b1 by (simp add: ilog2_def power_int_nonneg_exp)
next
  case False
  let ?m = "\<lceil>1 / x\<rceil>"
  let ?b = "bitlen (?m - 1)"
  from False assms have "1 < 1 / x" by simp
  then have pos: "0 < ?m - 1" by linarith
  then have b1: "1 \<le> ?b" by (simp add: bitlen_alt_def)
  have "2 ^ nat (?b - 1) \<le> ?m - 1"
    using bitlen_bounds [OF pos] by simp
  then have "rat_of_int (2 ^ nat (?b - 1)) \<le> rat_of_int (?m - 1)"
    by (simp only: of_int_le_iff)
  moreover have "rat_of_int (?m - 1) < 1 / x" by linarith
  ultimately have "2 ^ nat (?b - 1) < 1 / x" by simp
  then have "x < 1 / 2 ^ nat (?b - 1)"
    using assms by (simp add: field_simps)
  moreover have "(2::rat) powi (- ?b + 1) = 1 / 2 ^ nat (?b - 1)"
  proof -
    have "- ?b + 1 = - (?b - 1)" by simp
    then show ?thesis using b1
      by (simp only: power_int_minus_divide) (simp add: power_int_nonneg_exp)
  qed
  ultimately show ?thesis
    using False by (simp add: ilog2_def)
qed

lemma round_half_even_of_int: "round_half_even (of_int n) = n"
  by (simp add: round_half_even_def)

lemma round_half_even_le:
  assumes "x \<le> of_int M"
  shows "round_half_even x \<le> M"
proof -
  have fl: "\<lfloor>x\<rfloor> \<le> M" using assms by (simp add: floor_le_iff)
  show ?thesis
  proof (cases "\<lfloor>x\<rfloor> = M")
    case True
    then have "x = of_int M" using assms by linarith
    then show ?thesis by (simp add: round_half_even_of_int)
  next
    case False
    with fl have "\<lfloor>x\<rfloor> + 1 \<le> M" by simp
    then show ?thesis
      by (auto simp: round_half_even_def Let_def)
  qed
qed

lemma round_half_even_nonneg: "0 \<le> x \<Longrightarrow> 0 \<le> round_half_even x"
  by (auto simp: round_half_even_def Let_def)

lemma round_scaled:
  "a = of_int n * q \<Longrightarrow> q \<noteq> 0 \<Longrightarrow> of_int (round_half_even (a / q)) * q = a"
  by (simp add: round_half_even_of_int)

lemma abs_sgn_mult: "x \<noteq> 0 \<Longrightarrow> 0 \<le> y \<Longrightarrow> \<bar>sgn x * y\<bar> = (y::rat)"
  by (simp add: abs_mult)

text \<open>A value that already has at most \<open>precision\<close> significant bits, on the grid of the
  format and within its range, is not changed by rounding.\<close>

lemma round_float_exact:
  assumes x: "x = of_int m * 2 powi k"
    and m: "\<bar>m\<bar> < 2 ^ precision fmt"
    and lo: "emin fmt - int (precision fmt) + 1 \<le> k"
    and hi: "k + int (precision fmt) \<le> emax fmt + 1"
  shows "round_float fmt x = Num x"
proof (cases "x = 0")
  case True
  then show ?thesis by (simp add: round_float_def)
next
  case False
  let ?p = "int (precision fmt)"
  let ?e = "max (ilog2 \<bar>x\<bar>) (emin fmt)"
  let ?j = "?e - ?p + 1"
  have ax: "\<bar>x\<bar> = of_int \<bar>m\<bar> * 2 powi k"
    by (simp add: x abs_mult)
  have "of_int \<bar>m\<bar> < (2::rat) ^ precision fmt"
    using m by (metis of_int_less_iff of_int_numeral of_int_power)
  then have "\<bar>x\<bar> < 2 ^ precision fmt * 2 powi k"
    unfolding ax by (simp add: mult_strict_right_mono)
  also have "\<dots> = 2 powi (?p + k)"
    by (simp add: power_int_add)
  finally have below: "\<bar>x\<bar> < 2 powi (?p + k)" .
  have "2 powi (ilog2 \<bar>x\<bar>) \<le> \<bar>x\<bar>"
    using False by (intro ilog2_lower) simp
  with below have "(2::rat) powi (ilog2 \<bar>x\<bar>) < 2 powi (?p + k)" by simp
  then have "ilog2 \<bar>x\<bar> < ?p + k" by (rule two_powi_less_cancel)
  with lo have jk: "?j \<le> k" by simp
  define q :: rat where "q = 2 powi ?j"
  define n :: int where "n = \<bar>m\<bar> * 2 ^ nat (k - ?j)"
  have q: "q \<noteq> 0" by (simp add: q_def)
  have "(2::rat) powi k = 2 powi (k - ?j) * q"
    unfolding q_def by (simp flip: power_int_add)
  also have "(2::rat) powi (k - ?j) = of_int (2 ^ nat (k - ?j))"
    using jk by (intro two_powi_nonneg_exp) simp
  finally have "\<bar>x\<bar> = of_int n * q"
    unfolding ax n_def by simp
  then have "of_int (round_half_even (\<bar>x\<bar> / q)) * q = \<bar>x\<bar>"
    using q by (rule round_scaled)
  then have r: "of_int (round_half_even (\<bar>x\<bar> / 2 powi ?j)) * 2 powi ?j = \<bar>x\<bar>"
    by (simp only: q_def)
  have "(2::rat) powi (?p + k) \<le> 2 powi (emax fmt + 1)"
    using hi by (intro two_powi_mono) simp
  with below have no: "\<not> 2 powi (emax fmt + 1) \<le> \<bar>x\<bar>" by simp
  have "sgn x * \<bar>x\<bar> = x" by (simp add: sgn_mult_abs)
  with False r no show ?thesis
    by (simp add: round_float_def Let_def)
qed

text \<open>Rounding does not leave a binade bound: a value of magnitude at most \<open>2^K\<close> rounds
  to a finite value of magnitude at most \<open>2^K\<close>.\<close>

lemma round_float_bounded:
  assumes b: "\<bar>x\<bar> \<le> 2 powi K"
    and lo: "emin fmt \<le> K" and hi: "K \<le> emax fmt" and p: "0 < precision fmt"
  shows "\<exists>y. round_float fmt x = Num y \<and> \<bar>y\<bar> \<le> 2 powi K"
proof (cases "x = 0")
  case True
  then show ?thesis by (simp add: round_float_def)
next
  case False
  let ?p = "int (precision fmt)"
  let ?e = "max (ilog2 \<bar>x\<bar>) (emin fmt)"
  let ?j = "?e - ?p + 1"
  let ?r = "round_half_even (\<bar>x\<bar> / 2 powi ?j)"
  let ?y = "of_int ?r * (2::rat) powi ?j"
  have "2 powi (ilog2 \<bar>x\<bar>) \<le> \<bar>x\<bar>"
    using False by (intro ilog2_lower) simp
  with b have "(2::rat) powi (ilog2 \<bar>x\<bar>) \<le> 2 powi K" by simp
  then have "ilog2 \<bar>x\<bar> \<le> K" by (rule two_powi_le_cancel)
  with lo have eK: "?e \<le> K" by simp
  with p have jK: "?j \<le> K" by linarith
  have split: "(2::rat) powi K = 2 powi (K - ?j) * 2 powi ?j"
    by (simp flip: power_int_add)
  have int: "(2::rat) powi (K - ?j) = of_int (2 ^ nat (K - ?j))"
    using jK by (intro two_powi_nonneg_exp) simp
  have "\<bar>x\<bar> / 2 powi ?j \<le> 2 powi K / 2 powi ?j"
    using b by (simp add: divide_right_mono)
  also have "\<dots> = of_int (2 ^ nat (K - ?j))"
    using split int by simp
  finally have "?r \<le> 2 ^ nat (K - ?j)" by (rule round_half_even_le)
  then have "rat_of_int ?r \<le> rat_of_int (2 ^ nat (K - ?j))" by (simp only: of_int_le_iff)
  then have "?y \<le> 2 powi (K - ?j) * 2 powi ?j"
    unfolding int by (intro mult_right_mono) simp_all
  then have yK: "?y \<le> 2 powi K" using split by simp
  have "0 \<le> ?r" by (intro round_half_even_nonneg) simp
  then have y0: "0 \<le> ?y" by simp
  have "(2::rat) powi K < 2 powi (emax fmt + 1)"
    using hi by (intro power_int_strict_increasing) simp_all
  with yK have no: "\<not> 2 powi (emax fmt + 1) \<le> ?y" by simp
  have "\<bar>sgn x * ?y\<bar> = ?y" using False y0 by (rule abs_sgn_mult)
  with yK have "\<bar>sgn x * ?y\<bar> \<le> 2 powi K" by simp
  with False no show ?thesis
    by (simp add: round_float_def Let_def)
qed

lemma round64_scaled:
  assumes "\<bar>m\<bar> < 2 ^ 53" "- 1074 \<le> k" "k \<le> 971"
  shows "round_float binary64 (of_int m * 2 powi k) = Num (of_int m * 2 powi k)"
  using assms by (intro round_float_exact [where m = m and k = k]) (simp_all add: binary64_def)

lemma round32_scaled:
  assumes "\<bar>m\<bar> < 2 ^ 24" "- 149 \<le> k" "k \<le> 104"
  shows "round_float binary32 (of_int m * 2 powi k) = Num (of_int m * 2 powi k)"
  using assms by (intro round_float_exact [where m = m and k = k]) (simp_all add: binary32_def)

lemma round64_int:
  "\<bar>m\<bar> < 2 ^ 53 \<Longrightarrow> round_float binary64 (of_int m) = Num (of_int m)"
  using round64_scaled [of m 0] by simp

lemma round64_256th:
  "\<bar>m\<bar> < 2 ^ 53 \<Longrightarrow> round_float binary64 (of_int m / 256) = Num (of_int m / 256)"
  using round64_scaled [of m "- 8"] by (simp add: power_int_minus_divide)

lemma round32_256th:
  "\<bar>m\<bar> < 2 ^ 24 \<Longrightarrow> round_float binary32 (of_int m / 256) = Num (of_int m / 256)"
  using round32_scaled [of m "- 8"] by (simp add: power_int_minus_divide)

lemma small_int: "\<bar>m\<bar> < 2 ^ 25 \<Longrightarrow> \<bar>m::int\<bar> < 2 ^ 53"
  by simp

text \<open>A value close enough to an integer number of spacings rounds to that number of
  spacings; and rounding moves a value by at most half a spacing.\<close>

lemma ilog2_unique:
  assumes "0 < x" "2 powi e \<le> x" "x < 2 powi (e + 1)"
  shows "ilog2 x = e"
proof -
  have "(2::rat) powi (ilog2 x) < 2 powi (e + 1)"
    using ilog2_lower [OF assms(1)] assms(3) by simp
  then have "ilog2 x < e + 1" by (rule two_powi_less_cancel)
  moreover have "(2::rat) powi e < 2 powi (ilog2 x + 1)"
    using ilog2_upper [OF assms(1)] assms(2) by simp
  then have "e < ilog2 x + 1" by (rule two_powi_less_cancel)
  ultimately show ?thesis by simp
qed

lemma round_half_even_nearest:
  assumes "\<bar>x - of_int n\<bar> < 1 / 2"
  shows "round_half_even x = n"
proof (cases "of_int n \<le> x")
  case True
  with assms have "\<lfloor>x\<rfloor> = n" by (intro floor_unique) (simp_all add: abs_less_iff)
  with assms True show ?thesis
    by (simp add: round_half_even_def Let_def abs_less_iff)
next
  case False
  with assms have "\<lfloor>x\<rfloor> = n - 1" by (intro floor_unique) (simp_all add: abs_less_iff)
  with assms False show ?thesis
    by (simp add: round_half_even_def Let_def abs_less_iff)
qed

lemma round_half_even_error: "\<bar>of_int (round_half_even x) - x\<bar> \<le> 1 / 2"
proof -
  have "of_int \<lfloor>x\<rfloor> \<le> x" "x < of_int \<lfloor>x\<rfloor> + 1" by linarith+
  then show ?thesis
    by (auto simp: round_half_even_def Let_def abs_le_iff)
qed

lemma round_float_nearest:
  assumes pos: "0 < X"
    and lo: "2 powi e \<le> X" and hi: "X < 2 powi (e + 1)"
    and e: "emin fmt \<le> e" "e < emax fmt"
    and n: "\<bar>X / 2 powi (e - int (precision fmt) + 1) - of_int n\<bar> < 1 / 2"
  shows "round_float fmt X = Num (of_int n * 2 powi (e - int (precision fmt) + 1))"
    and "round_float fmt (- X) = Num (- (of_int n * 2 powi (e - int (precision fmt) + 1)))"
proof -
  define q :: rat where "q = 2 powi (e - int (precision fmt) + 1)"
  have q: "0 < q" by (simp add: q_def)
  have il: "ilog2 X = e" using pos lo hi by (rule ilog2_unique)
  have r: "round_half_even (X / q) = n"
    using n unfolding q_def by (rule round_half_even_nearest)
  have pq: "2 powi int (precision fmt) * q = 2 powi (e + 1)"
    unfolding q_def by (subst power_int_add [symmetric]) simp_all
  then have "X / q < 2 powi int (precision fmt)"
    using hi q by (simp only: pos_divide_less_eq)
  then have "X / q \<le> of_int (2 ^ precision fmt)" by simp
  then have "n \<le> 2 ^ precision fmt" unfolding r [symmetric] by (rule round_half_even_le)
  then have "rat_of_int n \<le> rat_of_int (2 ^ precision fmt)" by (simp only: of_int_le_iff)
  then have "of_int n * q \<le> 2 ^ precision fmt * q"
    using q by (intro mult_right_mono) simp_all
  also have "\<dots> = 2 powi (e + 1)"
    using pq by simp
  also have "\<dots> < 2 powi (emax fmt + 1)"
    using e by (intro power_int_strict_increasing) simp_all
  finally have no: "\<not> 2 powi (emax fmt + 1) \<le> of_int n * q" by simp
  have m: "max e (emin fmt) = e" using e by simp
  show "round_float fmt X = Num (of_int n * 2 powi (e - int (precision fmt) + 1))"
    using pos no r unfolding q_def [symmetric]
    by (simp add: round_float_def il m Let_def flip: q_def)
  show "round_float fmt (- X) = Num (- (of_int n * 2 powi (e - int (precision fmt) + 1)))"
    using pos no r unfolding q_def [symmetric]
    by (simp add: round_float_def il m Let_def flip: q_def)
qed

lemma round_float_error:
  assumes b: "\<bar>x\<bar> < 2 powi K"
    and lo: "emin fmt < K" and hi: "K \<le> emax fmt" and p: "0 < precision fmt"
  shows "\<exists>y. round_float fmt x = Num y \<and> \<bar>y - x\<bar> \<le> 2 powi (K - int (precision fmt) - 1)"
proof (cases "x = 0")
  case True
  then show ?thesis by (simp add: round_float_def)
next
  case False
  let ?p = "int (precision fmt)"
  define j where "j = max (ilog2 \<bar>x\<bar>) (emin fmt) - ?p + 1"
  define q :: rat where "q = 2 powi j"
  define r where "r = round_half_even (\<bar>x\<bar> / q)"
  have q: "0 < q" by (simp add: q_def)
  have "\<bar>x\<bar> \<le> 2 powi K" using b by simp
  from round_float_bounded [OF this _ hi p] lo
  obtain y where y: "round_float fmt x = Num y" by auto
  have "2 powi (ilog2 \<bar>x\<bar>) \<le> \<bar>x\<bar>"
    using False by (intro ilog2_lower) simp
  with b have "(2::rat) powi (ilog2 \<bar>x\<bar>) < 2 powi K" by simp
  then have "ilog2 \<bar>x\<bar> < K" by (rule two_powi_less_cancel)
  with lo have "j \<le> K - ?p" unfolding j_def by simp
  then have "q \<le> 2 powi (K - ?p)" unfolding q_def by (rule two_powi_mono)
  moreover have "(2::rat) powi (K - ?p) = 2 * 2 powi (K - ?p - 1)"
    by (simp add: power_int_diff)
  ultimately have qb: "q / 2 \<le> 2 powi (K - ?p - 1)" by simp
  have yv: "y = sgn x * (of_int r * q)"
    using y False unfolding round_float_def Let_def r_def q_def j_def
    by (simp split: if_splits)
  have "\<bar>y - x\<bar> = \<bar>of_int r * q - \<bar>x\<bar>\<bar>"
  proof (cases "0 < x")
    case True
    then show ?thesis unfolding yv by simp
  next
    case neg: False
    with False have "x < 0" by simp
    then have "y - x = - (of_int r * q - \<bar>x\<bar>)" unfolding yv by simp
    then show ?thesis by (simp only: abs_minus)
  qed
  also have "of_int r * q - \<bar>x\<bar> = (of_int r - \<bar>x\<bar> / q) * q"
    using q by (simp add: field_simps)
  also have "\<bar>(of_int r - \<bar>x\<bar> / q) * q\<bar> = \<bar>of_int r - \<bar>x\<bar> / q\<bar> * q"
    using q by (simp add: abs_mult)
  also have "\<dots> \<le> 1 / 2 * q"
    unfolding r_def using q by (intro mult_right_mono round_half_even_error) simp
  finally have "\<bar>y - x\<bar> \<le> q / 2" by simp
  with qb y show ?thesis by auto
qed

lemma fifth_rounding_error:
  "\<bar>rat_of_int B / 5 - of_int (round_half_even (of_int B / 5))\<bar> \<le> 2 / 5"
proof -
  define k where "k = B div 5"
  define r where "r = B mod 5"
  have "B = k * 5 + r" by (simp add: k_def r_def)
  then have "rat_of_int B = of_int k * 5 + of_int r"
    by (metis of_int_add of_int_mult of_int_numeral)
  then have t: "rat_of_int B / 5 = of_int k + of_int r / 5" by simp
  have fl: "\<lfloor>rat_of_int k + of_int r / 5\<rfloor> = k"
    using floor_divide_of_int_eq [of B 5, where ?'a = rat] by (simp add: t k_def)
  have "r = 0 \<or> r = 1 \<or> r = 2 \<or> r = 3 \<or> r = 4"
    unfolding r_def by presburger
  then show ?thesis
    unfolding t round_half_even_def Let_def fl by auto
qed

text \<open>Two values of the same sign round to the same binary32 value when one of them is a
  multiple of a fifth of the spacing and the other is within a sixteenth of the spacing of
  it: a multiple of a fifth is at least a tenth of the spacing away from every midpoint.\<close>

lemma round32_agree:
  assumes pos: "0 < X" "0 < Z"
    and lo: "2 powi e \<le> X" and hi: "X < 2 powi (e + 1)"
    and range: "- 100 \<le> e" "e \<le> 100"
    and fifth: "X / 2 powi (e - 23) = of_int B / 5"
    and close: "\<bar>Z - X\<bar> \<le> 2 powi (e - 23) / 16"
  shows "round_float binary32 Z = round_float binary32 X"
    and "round_float binary32 (- Z) = round_float binary32 (- X)"
proof -
  define q :: rat where "q = 2 powi (e - 23)"
  define t where "t = X / q"
  define t' where "t' = Z / q"
  define n where "n = round_half_even t"
  have q: "0 < q" by (simp add: q_def)
  have X: "X = t * q" and Z: "Z = t' * q" using q by (simp_all add: t_def t'_def)
  have split: "2 powi k = 2 powi (k - (e - 23)) * q" for k
    unfolding q_def by (subst power_int_add [symmetric]) simp_all
  have q23: "2 powi e = 8388608 * q"
    using split [of e] by simp
  have q24: "2 powi (e + 1) = 16777216 * q"
    using split [of "e + 1"] by simp
  have q22: "2 powi (e - 1) = 4194304 * q"
    using split [of "e - 1"] by simp
  have qh: "2 powi (e - 24) = q / 2"
    using split [of "e - 24"] by simp
  have tB: "t = of_int B / 5" using fifth by (simp add: t_def q_def)
  have tn: "\<bar>t - of_int n\<bar> \<le> 2 / 5"
    unfolding n_def tB by (rule fifth_rounding_error)
  have "\<bar>t' - t\<bar> = \<bar>Z - X\<bar> / q"
    using q by (simp add: t_def t'_def abs_divide flip: diff_divide_distrib)
  also have "\<dots> \<le> (q / 16) / q"
    using close q unfolding q_def [symmetric] by (intro divide_right_mono) simp_all
  finally have tt: "\<bar>t' - t\<bar> \<le> 1 / 16" using q by simp
  have t_lo: "8388608 \<le> t" using lo q unfolding q23 X by simp
  have t_hi: "t < 16777216" using hi q unfolding q24 X by simp
  have fmt: "emin binary32 \<le> e" "e < emax binary32" "emin binary32 \<le> e - 1" "e - 1 < emax binary32"
    using range by (simp_all add: binary32_def)
  have ex: "e - int (precision binary32) + 1 = e - 23" "e - 1 - int (precision binary32) + 1 = e - 24"
    by (simp_all add: binary32_def)
  have "\<bar>X / 2 powi (e - int (precision binary32) + 1) - of_int n\<bar> < 1 / 2"
    unfolding ex q_def [symmetric] t_def [symmetric] using tn by simp
  note rX = round_float_nearest [OF pos(1) lo hi fmt(1,2) this, unfolded ex q_def [symmetric]]
  consider (same) "2 powi e \<le> Z" "Z < 2 powi (e + 1)" | (below) "Z < 2 powi e" | (above) "2 powi (e + 1) \<le> Z"
    by linarith
  then have "round_float binary32 Z = round_float binary32 X \<and>
      round_float binary32 (- Z) = round_float binary32 (- X)"
  proof cases
    case same
    have "\<bar>Z / 2 powi (e - int (precision binary32) + 1) - of_int n\<bar> < 1 / 2"
      unfolding ex q_def [symmetric] t'_def [symmetric] using tn tt by linarith
    note rZ = round_float_nearest [OF pos(2) same fmt(1,2) this, unfolded ex q_def [symmetric]]
    show ?thesis by (simp only: rX rZ)
  next
    case below
    then have "t' < 8388608" using q unfolding q23 Z by simp
    with tt have "t < 8388608 + 1 / 16" by linarith
    then have "rat_of_int B < of_int 41943041" unfolding tB by simp
    then have "B < 41943041" by (simp only: of_int_less_iff)
    moreover have "rat_of_int 41943040 \<le> of_int B" using t_lo unfolding tB by simp
    then have "41943040 \<le> B" by (simp only: of_int_le_iff)
    ultimately have "B = 41943040" by simp
    then have t: "t = of_int 8388608" unfolding tB by simp
    then have n: "n = 8388608" unfolding n_def by (simp only: round_half_even_of_int)
    have "t = 8388608" using t by simp
    with tt have t'_lo: "8388608 - 1 / 16 \<le> t'" by linarith
    then have "4194304 * q \<le> t' * q" using q by (intro mult_right_mono) simp_all
    then have lo': "2 powi (e - 1) \<le> Z" unfolding q22 Z .
    have hi': "Z < 2 powi (e - 1 + 1)" using below by simp
    have "Z / (q / 2) = 2 * t'" by (simp add: t'_def)
    then have "\<bar>Z / 2 powi (e - 1 - int (precision binary32) + 1) - of_int 16777216\<bar> < 1 / 2"
      unfolding ex qh using t'_lo \<open>t' < 8388608\<close> by (simp add: abs_less_iff)
    note rZ = round_float_nearest [OF pos(2) lo' hi' fmt(3,4) this, unfolded ex qh]
    show ?thesis unfolding rX rZ n by simp
  next
    case above
    then have "16777216 \<le> t'" using q unfolding q24 Z by simp
    with tt have "16777216 - 1 / 16 \<le> t" by linarith
    moreover have "rat_of_int B < of_int 83886080" using t_hi unfolding tB by simp
    then have "B < 83886080" by (simp only: of_int_less_iff)
    then have "B \<le> 83886079" by simp
    then have "rat_of_int B \<le> of_int 83886079" by (simp only: of_int_le_iff)
    then have "t \<le> 83886079 / 5" unfolding tB by simp
    ultimately show ?thesis by simp
  qed
  then show "round_float binary32 Z = round_float binary32 X"
    and "round_float binary32 (- Z) = round_float binary32 (- X)" by simp_all
qed

text \<open>The same for tenths \<open>a / 10\<close> of magnitude below \<open>2^24 / 10\<close>: the binary32
  spacing there is at least \<open>2^-27\<close>.\<close>

lemma round32_tenths_pos:
  assumes a: "0 < a" "a < 2 ^ 24"
    and close: "\<bar>Z - of_int a / 10\<bar> \<le> 2 powi (- 31)"
  shows "round_float binary32 Z = round_float binary32 (of_int a / 10)"
    and "round_float binary32 (- Z) = round_float binary32 (- (of_int a / 10))"
proof -
  define X :: rat where "X = of_int a / 10"
  define e where "e = ilog2 X"
  have "1 \<le> a" using a(1) by simp
  then have "rat_of_int 1 \<le> of_int a" by (simp only: of_int_le_iff)
  then have X_lo: "1 / 10 \<le> X" by (simp add: X_def)
  then have X: "0 < X" by simp
  have "rat_of_int a < of_int (2 ^ 24)" using a(2) by (simp only: of_int_less_iff)
  then have X_hi: "X < 2 powi 21" by (simp add: X_def)
  have lo: "2 powi e \<le> X" unfolding e_def using X by (rule ilog2_lower)
  have hi: "X < 2 powi (e + 1)" unfolding e_def using X by (rule ilog2_upper)
  have "(2::rat) powi (- 4) \<le> 1 / 10" by (simp add: power_int_minus_divide)
  with X_lo hi have "(2::rat) powi (- 4) < 2 powi (e + 1)" by simp
  then have "- 4 < e + 1" by (rule two_powi_less_cancel)
  then have e_lo: "- 4 \<le> e" by simp
  from lo X_hi have "(2::rat) powi e < 2 powi 21" by simp
  then have "e < 21" by (rule two_powi_less_cancel)
  then have e_hi: "e \<le> 20" by simp
  have Z: "0 < Z"
  proof -
    have "(2::rat) powi (- 31) < 1 / 10" by (simp add: power_int_minus_divide)
    with close X_lo show ?thesis unfolding X_def [symmetric] by linarith
  qed
  define B where "B = a * 4 * 2 ^ nat (20 - e)"
  have "(2::rat) powi (23 - e) = 2 powi 3 * 2 powi (20 - e)"
    by (subst power_int_add [symmetric]) simp_all
  also have "(2::rat) powi (20 - e) = of_int (2 ^ nat (20 - e))"
    using e_hi by (intro two_powi_nonneg_exp) simp
  finally have p: "(2::rat) powi (23 - e) = 8 * of_int (2 ^ nat (20 - e))" by simp
  have "X / 2 powi (e - 23) = X * 2 powi (23 - e)"
    using power_int_minus [of "2::rat" "e - 23"] by (simp add: field_simps)
  also have "\<dots> = of_int B / 5"
    unfolding p X_def B_def by simp
  finally have fifth: "X / 2 powi (e - 23) = of_int B / 5" .
  have "(2::rat) powi (- 31) \<le> 2 powi (e - 27)"
    using e_lo by (intro two_powi_mono) simp
  also have "(2::rat) powi (e - 27) = 2 powi (e - 23) / 16"
    using power_int_add [of "2::rat" "e - 23" "- 4"] by (simp add: power_int_minus_divide)
  finally have "\<bar>Z - X\<bar> \<le> 2 powi (e - 23) / 16"
    using close unfolding X_def by simp
  note r = round32_agree [OF X Z lo hi _ _ fifth this]
  show "round_float binary32 Z = round_float binary32 (of_int a / 10)"
    unfolding X_def [symmetric] using e_lo e_hi by (intro r(1)) simp_all
  show "round_float binary32 (- Z) = round_float binary32 (- (of_int a / 10))"
    unfolding X_def [symmetric] using e_lo e_hi by (intro r(2)) simp_all
qed

lemma round32_tenths:
  assumes a: "\<bar>a\<bar> < 2 ^ 24" "a \<noteq> 0"
    and close: "\<bar>z - of_int a / 10\<bar> \<le> 2 powi (- 31)"
  shows "round_float binary32 z = round_float binary32 (of_int a / 10)"
proof (cases "0 < a")
  case True
  with a close show ?thesis by (intro round32_tenths_pos(1)) simp_all
next
  case False
  with a have neg: "0 < - a" "- a < 2 ^ 24" by simp_all
  have "\<bar>- z - of_int (- a) / 10\<bar> = \<bar>z - of_int a / 10\<bar>"
    by (simp add: abs_minus_commute)
  with close have "\<bar>- z - of_int (- a) / 10\<bar> \<le> 2 powi (- 31)" by simp
  from round32_tenths_pos(2) [OF neg this] show ?thesis by simp
qed

text \<open>The value of the literal \<open>0.1\<close>.\<close>

lemma lit_0_1_value: "lit_0_1 = Num (3602879701896397 / 36028797018963968)"
proof -
  have "round_float binary64 (1 / 10) =
      Num (of_int 7205759403792794 * 2 powi (- 4 - int (precision binary64) + 1))"
    by (rule round_float_nearest) (simp_all add: binary64_def power_int_minus_divide)
  then show ?thesis
    by (simp add: lit_0_1_def binary64_def power_int_minus_divide)
qed

section \<open>The decoders on bytes\<close>

text \<open>Every operation of the Terrarium closure is exact on bytes, and so is the store
  into the \<open>Float32Array\<close>.\<close>

lemma terrarium_int:
  fixes r g b :: int
  assumes "0 \<le> r" "r < 256" "0 \<le> g" "g < 256" "0 \<le> b" "b < 256"
  shows "terrarium_decoder (Num (of_int r)) (Num (of_int g)) (Num (of_int b)) =
         Num (of_int (r * 65536 + g * 256 + b - 8388608) / 256)"
proof -
  have "\<bar>r * 256\<bar> < 2 ^ 25" using assms by simp
  then have 1: "dmul (Num (of_int r)) (Num 256) = Num (of_int (r * 256))"
    using round64_int [of "r * 256"] by (simp del: abs_mult)
  have "\<bar>r * 256 + g\<bar> < 2 ^ 25" using assms by simp
  then have 2: "dadd (Num (of_int (r * 256))) (Num (of_int g)) = Num (of_int (r * 256 + g))"
    using round64_int [of "r * 256 + g"] by simp
  have "\<bar>b\<bar> < 2 ^ 25" using assms by simp
  then have 3: "ddiv (Num (of_int b)) (Num 256) = Num (of_int b / 256)"
    using round64_256th [of b] by simp
  have "\<bar>r * 65536 + g * 256 + b\<bar> < 2 ^ 25" using assms by simp
  then have r4: "round_float binary64 (of_int (r * 65536 + g * 256 + b) / 256) =
      Num (of_int (r * 65536 + g * 256 + b) / 256)"
    by (intro round64_256th small_int)
  have e4: "rat_of_int (r * 256 + g) + of_int b / 256 = of_int (r * 65536 + g * 256 + b) / 256"
    by simp
  have 4: "dadd (Num (of_int (r * 256 + g))) (Num (of_int b / 256)) =
           Num (of_int (r * 65536 + g * 256 + b) / 256)"
    unfolding dadd.simps e4 by (rule r4)
  have "\<bar>r * 65536 + g * 256 + b - 8388608\<bar> < 2 ^ 25" using assms by simp
  then have r5: "round_float binary64 (of_int (r * 65536 + g * 256 + b - 8388608) / 256) =
      Num (of_int (r * 65536 + g * 256 + b - 8388608) / 256)"
    by (intro round64_256th small_int)
  have e5: "rat_of_int (r * 65536 + g * 256 + b) / 256 + - 32768 =
      of_int (r * 65536 + g * 256 + b - 8388608) / 256"
    by simp
  have 5: "dsub (Num (of_int (r * 65536 + g * 256 + b) / 256)) (Num 32768) =
           Num (of_int (r * 65536 + g * 256 + b - 8388608) / 256)"
    unfolding dsub_def dneg.simps dadd.simps e5 by (rule r5)
  show ?thesis
    unfolding terrarium_decoder_def 1 2 3 4 5 ..
qed

lemma terrarium_int_f32:
  fixes r g b :: int
  assumes "0 \<le> r" "r < 256" "0 \<le> g" "g < 256" "0 \<le> b" "b < 256"
  shows "fround (terrarium_decoder (Num (of_int r)) (Num (of_int g)) (Num (of_int b))) =
         Num (of_int (r * 65536 + g * 256 + b - 8388608) / 256)"
proof -
  have "\<bar>r * 65536 + g * 256 + b - 8388608\<bar> < 2 ^ 24" using assms by simp
  then show ?thesis
    unfolding terrarium_int [OF assms] fround.simps by (rule round32_256th)
qed

section \<open>The loop\<close>

lemma Float32Array_set_nat:
  "Float32Array_set a (of_nat k) v = (if k < length a then a[k := fround v] else a)"
  by (simp add: Float32Array_set_def)

lemma loop_body_input [simp]: "buf_input (loop_body dec i s) = buf_input s"
  by (simp add: loop_body_def)

lemma loop_body_length [simp]: "length (buf_data (loop_body dec i s)) = length (buf_data s)"
  by (simp add: loop_body_def Float32Array_set_def)

lemma loop_body_data:
  "buf_data (loop_body dec (4 * k) s) =
     (if k < length (buf_data s) then (buf_data s)[k := pixel_value dec (buf_input s) k]
      else buf_data s)"
proof -
  have "(of_nat (4 * k) / 4 :: rat) = of_nat k" by simp
  then show ?thesis
    unfolding loop_body_def pixel_value_def by (simp add: Float32Array_set_nat)
qed

lemma decode_loop_input: "buf_input (decode_loop dec i s) = buf_input s"
  by (induction dec i s rule: decode_loop.induct) (subst decode_loop.simps, simp)

lemma decode_loop_length: "length (buf_data (decode_loop dec i s)) = length (buf_data s)"
  by (induction dec i s rule: decode_loop.induct) (subst decode_loop.simps, simp)

lemma decode_loop_nth:
  "p < length (buf_data s) \<Longrightarrow>
   buf_data (decode_loop dec (4 * k) s) ! p =
     (if k \<le> p \<and> 4 * p < length (buf_input s) then pixel_value dec (buf_input s) p
      else buf_data s ! p)"
proof (induction dec "4 * k" s arbitrary: k rule: decode_loop.induct)
  case (1 dec s)
  show ?case
  proof (cases "4 * k < length (buf_input s)")
    case False
    then show ?thesis by (subst decode_loop.simps) auto
  next
    case True
    let ?s = "loop_body dec (4 * k) s"
    have step: "decode_loop dec (4 * k) s = decode_loop dec (4 * Suc k) ?s"
      using True by (subst decode_loop.simps) (simp add: add.commute)
    have len: "p < length (buf_data ?s)"
      using "1.prems" by simp
    have ih: "buf_data (decode_loop dec (4 * Suc k) ?s) ! p =
        (if Suc k \<le> p \<and> 4 * p < length (buf_input ?s) then pixel_value dec (buf_input ?s) p
         else buf_data ?s ! p)"
      using "1.hyps" [OF True _ len, of "Suc k"] by simp
    show ?thesis
    proof (cases "p = k")
      case True
      with \<open>4 * k < length (buf_input s)\<close> "1.prems" show ?thesis
        unfolding step ih by (simp add: loop_body_data)
    next
      case False
      with "1.prems" show ?thesis
        unfolding step ih by (auto simp: loop_body_data)
    qed
  qed
qed

lemma data_length: "length (data (decodeParsedImage w h encoding input)) = w * h"
  by (simp add: decodeParsedImage_def decodeParsedImage_buffers_def decode_loop_length)

lemma data_nth:
  assumes "p < w * h"
  shows "data (decodeParsedImage w h encoding input) ! p =
    (if 4 * p < length input then pixel_value (decoder encoding) input p else Num 0)"
proof -
  let ?s = "\<lparr>buf_input = input, buf_data = replicate (w * h) (Num 0)\<rparr>"
  have "p < length (buf_data ?s)"
    using assms by simp
  from decode_loop_nth [OF this, of "decoder encoding" 0] assms show ?thesis
    by (simp add: decodeParsedImage_def decodeParsedImage_buffers_def)
qed

section \<open>Pixels\<close>

lemma mapbox_int:
  fixes r g b :: int
  assumes "0 \<le> r" "r < 256" "0 \<le> g" "g < 256" "0 \<le> b" "b < 256"
  shows "mapbox_decoder (Num (of_int r)) (Num (of_int g)) (Num (of_int b)) =
         dadd (Num (- 10000)) (dmul (Num (of_int (r * 65536 + g * 256 + b))) lit_0_1)"
proof -
  have "\<bar>r * 256\<bar> < 2 ^ 25" using assms by simp
  then have 1: "dmul (Num (of_int r)) (Num 256) = Num (of_int (r * 256))"
    using round64_int [of "r * 256"] by (simp del: abs_mult)
  have "\<bar>r * 65536\<bar> < 2 ^ 25" using assms by simp
  then have 2: "dmul (Num (of_int (r * 256))) (Num 256) = Num (of_int (r * 65536))"
    using round64_int [of "r * 65536"] by (simp del: abs_mult add: mult.commute)
  have "\<bar>g * 256\<bar> < 2 ^ 25" using assms by simp
  then have 3: "dmul (Num (of_int g)) (Num 256) = Num (of_int (g * 256))"
    using round64_int [of "g * 256"] by (simp del: abs_mult)
  have "\<bar>r * 65536 + g * 256\<bar> < 2 ^ 25" using assms by simp
  then have 4: "dadd (Num (of_int (r * 65536))) (Num (of_int (g * 256))) =
      Num (of_int (r * 65536 + g * 256))"
    using round64_int [of "r * 65536 + g * 256"] by simp
  have "\<bar>r * 65536 + g * 256 + b\<bar> < 2 ^ 25" using assms by simp
  then have 5: "dadd (Num (of_int (r * 65536 + g * 256))) (Num (of_int b)) =
      Num (of_int (r * 65536 + g * 256 + b))"
    using round64_int [of "r * 65536 + g * 256 + b"] by simp
  show ?thesis
    unfolding mapbox_decoder_def 1 2 3 4 5 ..
qed



text \<open>
  The Mapbox closure rounds three times: the product with \<open>0.1\<close>, the sum with
  \<open>-10000\<close>, and the store into the \<open>Float32Array\<close>. The first two errors and the error
  of the literal together stay below \<open>2^-31\<close>, so the stored value is the binary32 value
  nearest to the exact \<open>-10000 + N / 10\<close>.
\<close>

lemma mapbox_single_rounding:
  assumes N: "0 \<le> N" "N < 2 ^ 24"
  shows "fround (dadd (Num (- 10000)) (dmul (Num (of_int N)) lit_0_1)) =
    round_float binary32 (- 10000 + of_int N / 10)"
proof -
  define c :: rat where "c = 3602879701896397 / 36028797018963968"
  define P where "P = of_int N * c"
  have Nr: "0 \<le> rat_of_int N" "rat_of_int N < 16777216"
  proof -
    show "0 \<le> rat_of_int N" using N(1) by simp
    have "rat_of_int N < of_int (2 ^ 24)" using N(2) by (simp only: of_int_less_iff)
    then show "rat_of_int N < 16777216" by simp
  qed
  have c: "c - 1 / 10 = 1 / 180143985094819840" by (simp add: c_def)
  have P0: "0 \<le> P" using Nr by (simp add: P_def c_def)
  have Pc: "P - of_int N / 10 = of_int N / 180143985094819840"
    using c by (simp add: P_def algebra_simps)
  have P_hi: "\<bar>P\<bar> < 2 powi 21"
    using P0 Nr by (simp add: P_def c_def)
  from round_float_error [OF P_hi, of binary64]
  obtain y1 where y1: "round_float binary64 P = Num y1" "\<bar>y1 - P\<bar> \<le> 2 powi (- 33)"
    by (auto simp: binary64_def)
  have "\<bar>y1\<bar> \<le> \<bar>P\<bar> + \<bar>y1 - P\<bar>" by simp
  also have "\<dots> < 2 powi 21 + 2 powi (- 33)"
    using P_hi y1(2) by (intro add_less_le_mono)
  finally have "\<bar>- 10000 + y1\<bar> < 2 powi 22"
    by (simp add: power_int_minus_divide)
  from round_float_error [OF this, of binary64]
  obtain y2 where y2: "round_float binary64 (- 10000 + y1) = Num y2"
    "\<bar>y2 - (- 10000 + y1)\<bar> \<le> 2 powi (- 32)"
    by (auto simp: binary64_def)
  have lhs: "fround (dadd (Num (- 10000)) (dmul (Num (of_int N)) lit_0_1)) = round_float binary32 y2"
    unfolding lit_0_1_value c_def [symmetric] dmul.simps P_def [symmetric] y1(1) dadd.simps y2(1)
    by simp
  show ?thesis
  proof (cases "N = 100000")
    case True
    have "round_float binary64 P =
        Num (of_int 5497558138880000 * 2 powi (13 - int (precision binary64) + 1))"
      unfolding P_def c_def True
      by (rule round_float_nearest) (simp_all add: binary64_def power_int_minus_divide)
    then have "y1 = 10000"
      using y1(1) by (simp add: binary64_def power_int_minus_divide)
    then have "y2 = 0" using y2(1) by (simp add: round_float_def)
    then show ?thesis unfolding lhs using True by simp
  next
    case False
    define a where "a = N - 100000"
    have a: "\<bar>a\<bar> < 2 ^ 24" "a \<noteq> 0" using N False by (simp_all add: a_def)
    have x: "- 10000 + rat_of_int N / 10 = of_int a / 10" by (simp add: a_def)
    have "y2 - of_int a / 10 = (y2 - (- 10000 + y1)) + (y1 - P) + (P - of_int N / 10)"
      unfolding x [symmetric] by simp
    also have "\<bar>\<dots>\<bar> \<le> \<bar>y2 - (- 10000 + y1)\<bar> + \<bar>y1 - P\<bar> + \<bar>P - of_int N / 10\<bar>"
      by linarith
    also have "\<dots> \<le> 2 powi (- 32) + 2 powi (- 33) + 16777216 / 180143985094819840"
      unfolding Pc using y1(2) y2(2) Nr by (intro add_mono) simp_all
    also have "\<dots> \<le> 2 powi (- 31)" by (simp add: power_int_minus_divide)
    finally have "\<bar>y2 - of_int a / 10\<bar> \<le> 2 powi (- 31)" .
    with a show ?thesis unfolding lhs x by (rule round32_tenths)
  qed
qed

lemma uint8_lt: "uint (b::uint8) < 256"
  using uint_bounded [of b] by simp

lemma rgb_bounds:
  fixes r g b :: uint8
  shows "0 \<le> uint r * 65536 + uint g * 256 + uint b"
    and "uint r * 65536 + uint g * 256 + uint b < 2 ^ 24"
  using uint8_lt [of r] uint8_lt [of g] uint8_lt [of b] by simp_all

lemma centred_bound: "0 \<le> n \<Longrightarrow> n < 2 ^ 24 \<Longrightarrow> \<bar>n - 8388608\<bar> < (2 ^ 24 :: int)"
  by simp

lemma pixel_value_in_range:
  assumes "4 * p + 2 < length input"
  shows "pixel_value dec input p =
    fround (dec (Num (of_int (uint (input ! (4 * p)))))
                (Num (of_int (uint (input ! (4 * p + 1)))))
                (Num (of_int (uint (input ! (4 * p + 2))))))"
  using assms by (simp add: pixel_value_def Uint8ClampedArray_get_def)

lemma decode_loop_fold:
  "length (buf_input s) = 4 * n \<Longrightarrow> k \<le> n \<Longrightarrow>
   decode_loop dec (4 * k) s = fold (loop_body dec) (map (\<lambda>q. 4 * q) [k..<n]) s"
proof (induction "n - k" arbitrary: k s)
  case 0
  then show ?case by (subst decode_loop.simps) simp
next
  case (Suc d)
  then have lt: "k < n" by simp
  have "decode_loop dec (4 * k) s = decode_loop dec (4 * Suc k) (loop_body dec (4 * k) s)"
    using lt Suc.prems by (subst decode_loop.simps) (simp add: add.commute)
  also have "\<dots> = fold (loop_body dec) (map (\<lambda>q. 4 * q) [Suc k..<n]) (loop_body dec (4 * k) s)"
    using Suc.hyps(2) Suc.prems lt by (intro Suc.hyps(1)) simp_all
  also have "\<dots> = fold (loop_body dec) (map (\<lambda>q. 4 * q) [k..<n]) s"
    using lt by (simp add: upt_conv_Cons)
  finally show ?case .
qed



lemma DemTile_eqI:
  assumes "\<And>p. p < w * h \<Longrightarrow>
     data (decodeParsedImage w h e1 a) ! p = data (decodeParsedImage w h e2 b) ! p"
  shows "decodeParsedImage w h e1 a = decodeParsedImage w h e2 b"
proof -
  have "data (decodeParsedImage w h e1 a) = data (decodeParsedImage w h e2 b)"
    using assms by (intro nth_equalityI) (simp_all add: data_length)
  then show ?thesis
    by (simp add: decodeParsedImage_def)
qed

lemma returned_call:
  "returned (decodeParsedImage_call g w h encoding input) = decodeParsedImage w h encoding input"
  by (simp add: decodeParsedImage_call_def decodeParsedImage_def Let_def)

lemma input_after_call:
  "input_after (decodeParsedImage_call g w h encoding input) = input"
  by (simp add: decodeParsedImage_call_def decodeParsedImage_buffers_def decode_loop_input Let_def)

lemma get_take:
  "i < n \<Longrightarrow> Uint8ClampedArray_get (take n a) i = Uint8ClampedArray_get a i"
  by (simp add: Uint8ClampedArray_get_def)

text \<open>The tile of a call whose allocation has succeeded, for a buffer of any length.\<close>

lemma tile_any_length:
  "width (decodeParsedImage w h encoding input) = w \<and>
   height (decodeParsedImage w h encoding input) = h \<and>
   length (data (decodeParsedImage w h encoding input)) = w * h \<and>
   decodeParsedImage w h encoding (take (4 * w * h) input) = decodeParsedImage w h encoding input \<and>
   (\<forall>p < w * h. length input \<le> 4 * p \<longrightarrow> data (decodeParsedImage w h encoding input) ! p = Num 0)"
proof (intro conjI allI impI)
  show "decodeParsedImage w h encoding (take (4 * w * h) input) = decodeParsedImage w h encoding input"
  proof (rule DemTile_eqI)
    fix p
    assume p: "p < w * h"
    then have "4 * p < 4 * w * h" "4 * p + 1 < 4 * w * h" "4 * p + 2 < 4 * w * h"
      by simp_all
    then have "pixel_value (decoder encoding) (take (4 * w * h) input) p =
        pixel_value (decoder encoding) input p"
      unfolding pixel_value_def by (simp only: get_take)
    moreover from p have "4 * p < length (take (4 * w * h) input) \<longleftrightarrow> 4 * p < length input"
      by auto
    ultimately show "data (decodeParsedImage w h encoding (take (4 * w * h) input)) ! p =
        data (decodeParsedImage w h encoding input) ! p"
      using p by (simp only: data_nth)
  qed
qed (simp_all add: data_length data_nth, simp_all add: decodeParsedImage_def)

text \<open>The call throws exactly when the allocation does, and returns that tile otherwise.\<close>

lemma completion_eq:
  "decodeParsedImage_completion capacity w h encoding input =
     (if w * h \<le> 2 ^ 53 - 1 \<and> w * h \<le> capacity
      then Inr (decodeParsedImage w h encoding input) else Inl RangeError)"
  by (auto simp: decodeParsedImage_completion_def new_Float32Array_def decodeParsedImage_def
      decodeParsedImage_buffers_def)

lemma completion_empty:
  "decodeParsedImage_completion capacity 0 0 encoding [] = Inr \<lparr>width = 0, height = 0, data = []\<rparr>"
  by (simp add: decodeParsedImage_completion_def new_Float32Array_def decode_loop.simps)

section \<open>Claims\<close>

text \<open>C1: when the buffer holds \<open>4 * width * height\<close> bytes, element \<open>p\<close> of the data decoded
  as \<open>mapbox\<close> is the binary32 value of \<open>-10000 + (R * 65536 + G * 256 + B) * 0.1\<close> for the
  bytes \<open>R\<close>, \<open>G\<close>, \<open>B\<close> at \<open>4p\<close>, \<open>4p + 1\<close>, \<open>4p + 2\<close>. This holds in both readings of
  the formula: as the rational number, rounded once to binary32; and as the expression
  of the language, evaluated in binary64 and then stored.\<close>

theorem decodeParsedImage_mapbox:
  assumes "length input = 4 * w * h" and "p < w * h"
  shows "data (decodeParsedImage w h ''mapbox'' input) ! p =
      round_float binary32
        (- 10000 + of_nat (unat (input ! (4 * p)) * 65536 + unat (input ! (4 * p + 1)) * 256
                           + unat (input ! (4 * p + 2))) * (1 / 10)) \<and>
    data (decodeParsedImage w h ''mapbox'' input) ! p =
      fround (dadd (Num (- 10000))
        (dmul (Num (of_nat (unat (input ! (4 * p)) * 65536 + unat (input ! (4 * p + 1)) * 256
                            + unat (input ! (4 * p + 2)))))
              lit_0_1))"
proof -
  let ?N = "uint (input ! (4 * p)) * 65536 + uint (input ! (4 * p + 1)) * 256
              + uint (input ! (4 * p + 2))"
  have in_range: "4 * p + 2 < length input" using assms by simp
  have "data (decodeParsedImage w h ''mapbox'' input) ! p = pixel_value mapbox_decoder input p"
    using assms by (simp add: data_nth decoder_def)
  also have "\<dots> = fround (mapbox_decoder (Num (of_int (uint (input ! (4 * p)))))
                (Num (of_int (uint (input ! (4 * p + 1)))))
                (Num (of_int (uint (input ! (4 * p + 2))))))"
    using in_range by (rule pixel_value_in_range)
  also have "\<dots> = fround (dadd (Num (- 10000)) (dmul (Num (of_int ?N)) lit_0_1))"
    by (simp only: mapbox_int [OF uint_ge_0 uint8_lt uint_ge_0 uint8_lt uint_ge_0 uint8_lt])
  finally have lang: "data (decodeParsedImage w h ''mapbox'' input) ! p =
      fround (dadd (Num (- 10000)) (dmul (Num (of_int ?N)) lit_0_1))" .
  also have "\<dots> = round_float binary32 (- 10000 + of_int ?N / 10)"
    using rgb_bounds by (rule mapbox_single_rounding)
  finally have single: "data (decodeParsedImage w h ''mapbox'' input) ! p =
      round_float binary32 (- 10000 + of_int ?N / 10)" .
  from single lang show ?thesis by simp
qed

theorem decodeParsedImage_mapbox_witness:
  "length [1, 134, 161, 255 :: uint8] = 4 * 1 * 1 \<and> (0::nat) < 1 * 1 \<and>
   data (decodeParsedImage 1 1 ''mapbox'' [1, 134, 160, 255]) ! 0 = Num 0 \<and>
   data (decodeParsedImage 1 1 ''mapbox'' [1, 134, 161, 255]) ! 0 = Num (13421773 / 134217728)"
proof -
  have "round_float binary32 (1 / 10) =
      Num (of_int 13421773 * 2 powi (- 4 - int (precision binary32) + 1))"
    by (rule round_float_nearest) (simp_all add: binary32_def power_int_minus_divide)
  then have tenth: "round_float binary32 (1 / 10) = Num (13421773 / 134217728)"
    by (simp add: binary32_def power_int_minus_divide)
  have "data (decodeParsedImage 1 1 ''mapbox'' [1, 134, 160, 255]) ! 0 = Num 0"
    using decodeParsedImage_mapbox [of "[1, 134, 160, 255]" 1 1 0]
    by (simp add: round_float_def)
  moreover have "data (decodeParsedImage 1 1 ''mapbox'' [1, 134, 161, 255]) ! 0 =
      Num (13421773 / 134217728)"
    using decodeParsedImage_mapbox [of "[1, 134, 161, 255]" 1 1 0, THEN conjunct1]
    by (simp add: tenth)
  ultimately show ?thesis by simp
qed

text \<open>C2: when the buffer holds \<open>4 * width * height\<close> bytes, element \<open>p\<close> of the data decoded
  as \<open>terrarium\<close> is the binary32 value of \<open>R * 256 + G + B / 256 - 32768\<close> for the bytes
  \<open>R\<close>, \<open>G\<close>, \<open>B\<close> at \<open>4p\<close>, \<open>4p + 1\<close>, \<open>4p + 2\<close>, and this is the rational number
  itself: no operation of the formula rounds.\<close>

theorem decodeParsedImage_terrarium:
  assumes "length input = 4 * w * h" and "p < w * h"
  shows "data (decodeParsedImage w h ''terrarium'' input) ! p =
      round_float binary32
        (of_nat (unat (input ! (4 * p))) * 256 + of_nat (unat (input ! (4 * p + 1)))
         + of_nat (unat (input ! (4 * p + 2))) / 256 - 32768) \<and>
    data (decodeParsedImage w h ''terrarium'' input) ! p =
      Num (of_nat (unat (input ! (4 * p))) * 256 + of_nat (unat (input ! (4 * p + 1)))
           + of_nat (unat (input ! (4 * p + 2))) / 256 - 32768)"
proof -
  let ?M = "uint (input ! (4 * p)) * 65536 + uint (input ! (4 * p + 1)) * 256
              + uint (input ! (4 * p + 2)) - 8388608"
  have in_range: "4 * p + 2 < length input" using assms by simp
  have "data (decodeParsedImage w h ''terrarium'' input) ! p = pixel_value terrarium_decoder input p"
    using assms by (simp add: data_nth decoder_def)
  also have "\<dots> = fround (terrarium_decoder (Num (of_int (uint (input ! (4 * p)))))
                (Num (of_int (uint (input ! (4 * p + 1)))))
                (Num (of_int (uint (input ! (4 * p + 2))))))"
    using in_range by (rule pixel_value_in_range)
  also have "\<dots> = Num (of_int ?M / 256)"
    by (simp only: terrarium_int_f32 [OF uint_ge_0 uint8_lt uint_ge_0 uint8_lt uint_ge_0 uint8_lt])
  finally have exact: "data (decodeParsedImage w h ''terrarium'' input) ! p = Num (of_int ?M / 256)" .
  have "\<bar>?M\<bar> < 2 ^ 24"
    using rgb_bounds by (rule centred_bound)
  then have "round_float binary32 (of_int ?M / 256) = Num (of_int ?M / 256)"
    by (rule round32_256th)
  with exact have "data (decodeParsedImage w h ''terrarium'' input) ! p =
      round_float binary32 (of_int ?M / 256)" by simp
  moreover have "rat_of_int ?M / 256 =
      of_nat (unat (input ! (4 * p))) * 256 + of_nat (unat (input ! (4 * p + 1)))
         + of_nat (unat (input ! (4 * p + 2))) / 256 - 32768"
    by simp
  ultimately show ?thesis using exact by (simp only:)
qed

theorem decodeParsedImage_terrarium_witness:
  "length [128, 0, 128, 255 :: uint8] = 4 * 1 * 1 \<and> (0::nat) < 1 * 1 \<and>
   data (decodeParsedImage 1 1 ''terrarium'' [128, 0, 128, 255]) ! 0 = Num (1 / 2)"
  using decodeParsedImage_terrarium [of "[128, 0, 128, 255]" 1 1 0, THEN conjunct2] by simp




text \<open>C4: with width 0, height 0 and an empty pixel buffer, every encoding yields the
  zero-sized tile: width 0, height 0 and an empty data array.\<close>

theorem decodeParsedImage_empty:
  "decodeParsedImage 0 0 encoding [] = \<lparr>width = 0, height = 0, data = []\<rparr>"
  by (simp add: decodeParsedImage_def decodeParsedImage_buffers_def decode_loop.simps)



text \<open>C6: two buffers of the same length that agree at every index outside the alpha
  positions \<open>4p + 3\<close> decode to the same tile.\<close>

theorem alpha_ignored:
  assumes len: "length a = length b"
    and rgb: "\<forall>i < length a. i mod 4 \<noteq> 3 \<longrightarrow> a ! i = b ! i"
  shows "decodeParsedImage w h encoding a = decodeParsedImage w h encoding b"
proof (rule DemTile_eqI)
  fix p
  assume p: "p < w * h"
  have get: "Uint8ClampedArray_get a (4 * p + k) = Uint8ClampedArray_get b (4 * p + k)"
    if "k < 3" for k
  proof -
    from that have "(4 * p + k) mod 4 \<noteq> 3" by presburger
    with rgb len show ?thesis
      by (simp add: Uint8ClampedArray_get_def)
  qed
  have "pixel_value (decoder encoding) a p = pixel_value (decoder encoding) b p"
    using get [of 0] get [of 1] get [of 2] by (simp add: pixel_value_def)
  with p len show "data (decodeParsedImage w h encoding a) ! p =
      data (decodeParsedImage w h encoding b) ! p"
    by (simp add: data_nth)
qed

theorem alpha_ignored_witness:
  "length [1, 2, 3, 0 :: uint8] = length [1, 2, 3, 255 :: uint8] \<and>
   decodeParsedImage 1 1 ''mapbox'' [1, 2, 3, 0] = decodeParsedImage 1 1 ''mapbox'' [1, 2, 3, 255]"
proof -
  have "[1, 2, 3, 0 :: uint8] ! i = [1, 2, 3, 255 :: uint8] ! i"
    if "i < length [1, 2, 3, 0 :: uint8]" and "i mod 4 \<noteq> 3" for i
  proof -
    from that have "i = 0 \<or> i = 1 \<or> i = 2" by auto
    then show ?thesis by auto
  qed
  then show ?thesis
    using alpha_ignored [of "[1, 2, 3, 0]" "[1, 2, 3, 255]" 1 1 "''mapbox''"] by simp
qed

text \<open>C7: the tile a call returns is a function of the four arguments alone. A second call
  with the same arguments, run on the input buffer as the first call left it and with any
  contents \<open>g2\<close> of the module variables, returns the same tile as the first; and a call
  leaves the module variables as they were.\<close>

theorem decodeParsedImage_deterministic:
  "returned (decodeParsedImage_call g2 w h encoding
       (input_after (decodeParsedImage_call g1 w h encoding input))) =
   returned (decodeParsedImage_call g1 w h encoding input) \<and>
   vars_after (decodeParsedImage_call g1 w h encoding input) = g1"
  by (simp add: returned_call input_after_call) (simp add: decodeParsedImage_call_def Let_def)

text \<open>C8: when the call returns, the caller's pixel buffer holds the bytes it held before.\<close>

theorem input_unchanged:
  "input_after (decodeParsedImage_call g w h encoding input) = input"
  by (rule input_after_call)

text \<open>C9: on a buffer of \<open>4 * width * height\<close> bytes the loop runs its body once for each
  pixel \<open>0, 1, \<dots>, width * height - 1\<close>, in this order; and element \<open>p\<close> of the data is
  the same for any two such buffers that agree on the three bytes \<open>4p\<close>, \<open>4p + 1\<close>,
  \<open>4p + 2\<close> of pixel \<open>p\<close>, whatever the bytes of the other pixels are.\<close>

theorem pixels_independent:
  assumes "length a = 4 * w * h" and "length b = 4 * w * h" and "p < w * h"
    and "a ! (4 * p) = b ! (4 * p)" and "a ! (4 * p + 1) = b ! (4 * p + 1)"
    and "a ! (4 * p + 2) = b ! (4 * p + 2)"
  shows "decodeParsedImage_buffers w h encoding a =
      fold (loop_body (decoder encoding)) (map (\<lambda>q. 4 * q) [0..<w * h])
        \<lparr>buf_input = a, buf_data = replicate (w * h) (Num 0)\<rparr> \<and>
    data (decodeParsedImage w h encoding a) ! p = data (decodeParsedImage w h encoding b) ! p"
proof
  show "decodeParsedImage_buffers w h encoding a =
      fold (loop_body (decoder encoding)) (map (\<lambda>q. 4 * q) [0..<w * h])
        \<lparr>buf_input = a, buf_data = replicate (w * h) (Num 0)\<rparr>"
    unfolding decodeParsedImage_buffers_def
    using decode_loop_fold [of "\<lparr>buf_input = a, buf_data = replicate (w * h) (Num 0)\<rparr>" "w * h" 0]
      assms(1) by simp
  have "4 * p + 2 < length a" "4 * p + 2 < length b" using assms by simp_all
  then have "pixel_value (decoder encoding) a p = pixel_value (decoder encoding) b p"
    using assms(4-6) by (simp add: pixel_value_in_range)
  then show "data (decodeParsedImage w h encoding a) ! p = data (decodeParsedImage w h encoding b) ! p"
    using assms(1-3) by (simp add: data_nth)
qed

theorem pixels_independent_witness:
  "data (decodeParsedImage 2 1 ''terrarium'' [1, 2, 3, 4, 5, 6, 7, 8]) ! 1 =
   data (decodeParsedImage 2 1 ''terrarium'' [9, 9, 9, 9, 5, 6, 7, 200]) ! 1"
  by (rule pixels_independent [of "[1, 2, 3, 4, 5, 6, 7, 8]" 2 1 "[9, 9, 9, 9, 5, 6, 7, 200]" 1
        "''terrarium''", THEN conjunct2]) simp_all

text \<open>C10, as the code has it: when \<open>width * height\<close> exceeds neither \<open>2^53 - 1\<close> nor what
  the engine can allocate, the call returns for a buffer of any length, and the tile has
  the given width and height and \<open>width * height\<close> data elements; the bytes from index
  \<open>4 * width * height\<close> on do not matter; and an element whose pixel starts beyond the end
  of the buffer is 0, the initial value of the array.\<close>

theorem decodeParsedImage_any_length_within_limit:
  assumes "w * h \<le> 2 ^ 53 - 1" and "w * h \<le> capacity"
  shows "\<exists>t. decodeParsedImage_completion capacity w h encoding input = Inr t \<and>
    decodeParsedImage_completion capacity w h encoding (take (4 * w * h) input) = Inr t \<and>
    width t = w \<and> height t = h \<and> length (data t) = w * h \<and>
    (\<forall>p < w * h. length input \<le> 4 * p \<longrightarrow> data t ! p = Num 0)"
proof (intro exI conjI)
  show "decodeParsedImage_completion capacity w h encoding input =
      Inr (decodeParsedImage w h encoding input)"
    using assms by (simp add: completion_eq)
  show "decodeParsedImage_completion capacity w h encoding (take (4 * w * h) input) =
      Inr (decodeParsedImage w h encoding input)"
    using assms tile_any_length [of w h encoding input] by (simp add: completion_eq)
  show "\<forall>p < w * h. length input \<le> 4 * p \<longrightarrow>
      data (decodeParsedImage w h encoding input) ! p = Num 0"
    using tile_any_length [of w h encoding input] by blast
qed (simp_all add: data_length, simp_all add: decodeParsedImage_def)

theorem decodeParsedImage_any_length_within_limit_witness:
  "(2::nat) * 1 \<le> 2 ^ 53 - 1 \<and> (2::nat) * 1 \<le> 1000 \<and>
   (\<exists>t. decodeParsedImage_completion 1000 2 1 ''mapbox'' [1, 2, 3] = Inr t \<and>
        width t = 2 \<and> height t = 1 \<and> length (data t) = 2 \<and>
        length [1, 2, 3 :: uint8] \<le> 4 * 1 \<and> data t ! 1 = Num 0)"
proof -
  have "(2::nat) * 1 \<le> 2 ^ 53 - 1" and "(2::nat) * 1 \<le> 1000" by simp_all
  from decodeParsedImage_any_length_within_limit [OF this, of "''mapbox''" "[1, 2, 3]"]
  obtain t where t: "decodeParsedImage_completion 1000 2 1 ''mapbox'' [1, 2, 3] = Inr t"
    "width t = 2" "height t = 1" "length (data t) = 2 * 1"
    "\<forall>p < 2 * 1. length [1, 2, 3 :: uint8] \<le> 4 * p \<longrightarrow> data t ! p = Num 0"
    by blast
  from t(5) have "data t ! 1 = Num 0" by simp
  with t(1-4) show ?thesis by auto
qed

text \<open>C10 as stated fails: at width \<open>2^27\<close> and height \<open>2^27\<close> with an empty buffer the
  allocation of \<open>2^54\<close> elements throws a RangeError, even in an engine that can create
  every array the language admits.\<close>

theorem oversized_allocation_counterexample:
  "decodeParsedImage_completion (2 ^ 53 - 1) 134217728 134217728 ''mapbox'' [] = Inl RangeError"
  by (simp add: decodeParsedImage_completion_def new_Float32Array_def)

end
